theory Spec2Isabelle
  imports Complex_Main "HOL-Library.Log_Nat" "HOL-Library.Word"
begin

section \<open>Numbers of the page script\<close>

text \<open>
  The measurements of \<^verbatim>\<open>compare.py\<close> are computed by JavaScript that the script
  evaluates in the page, so every quotient and product is an IEEE double. A finite double is
  modelled by its exact rational value, and every arithmetic operation rounds its exact
  result with \<open>fl\<close>: to 53 significant bits, ties to the even significand. The exponent is
  unbounded in the model; overflow and subnormal numbers, which quotients and sums of pixel
  and edge counts cannot reach, are left out, and so is the sign of zero.
\<close>

text \<open>The exponent \<open>e\<close> with \<open>2^e \<le> x < 2^(e+1)\<close>, for a positive \<open>x\<close>.\<close>

definition binary_exponent :: "rat \<Rightarrow> int" where
  "binary_exponent x =
     (if 1 \<le> x then bitlen \<lfloor>x\<rfloor> - 1 else - bitlen (\<lceil>1 / x\<rceil> - 1))"

definition round_half_even :: "rat \<Rightarrow> int" where
  "round_half_even r =
     (let f = \<lfloor>r\<rfloor>; d = r - of_int f
      in if d < 1 / 2 then f else if 1 / 2 < d then f + 1
         else if even f then f else f + 1)"

definition fl :: "rat \<Rightarrow> rat" where
  "fl x =
     (if x = 0 then 0
      else let u = 2 powi (binary_exponent \<bar>x\<bar> - 52)
           in sgn x * of_int (round_half_even (\<bar>x\<bar> / u)) * u)"

datatype jsnum = Num rat | NaN | PosInf | NegInf

fun js_add :: "jsnum \<Rightarrow> jsnum \<Rightarrow> jsnum" where
  "js_add (Num a) (Num b) = Num (fl (a + b))"
| "js_add NaN _ = NaN"
| "js_add _ NaN = NaN"
| "js_add PosInf NegInf = NaN"
| "js_add NegInf PosInf = NaN"
| "js_add PosInf _ = PosInf"
| "js_add _ PosInf = PosInf"
| "js_add NegInf _ = NegInf"
| "js_add _ NegInf = NegInf"

fun js_mul :: "jsnum \<Rightarrow> jsnum \<Rightarrow> jsnum" where
  "js_mul (Num a) (Num b) = Num (fl (a * b))"
| "js_mul NaN _ = NaN"
| "js_mul _ NaN = NaN"
| "js_mul (Num a) PosInf = (if a = 0 then NaN else if 0 < a then PosInf else NegInf)"
| "js_mul (Num a) NegInf = (if a = 0 then NaN else if 0 < a then NegInf else PosInf)"
| "js_mul PosInf (Num b) = (if b = 0 then NaN else if 0 < b then PosInf else NegInf)"
| "js_mul NegInf (Num b) = (if b = 0 then NaN else if 0 < b then NegInf else PosInf)"
| "js_mul PosInf PosInf = PosInf"
| "js_mul NegInf NegInf = PosInf"
| "js_mul _ _ = NegInf"

text \<open>Division by zero does not throw in JavaScript: \<open>0 / 0\<close> is \<open>NaN\<close>.\<close>

fun js_div :: "jsnum \<Rightarrow> jsnum \<Rightarrow> jsnum" where
  "js_div (Num a) (Num b) =
     (if b = 0 then (if a = 0 then NaN else if 0 < a then PosInf else NegInf)
      else Num (fl (a / b)))"
| "js_div NaN _ = NaN"
| "js_div _ NaN = NaN"
| "js_div (Num a) _ = Num 0"
| "js_div PosInf (Num b) = (if 0 \<le> b then PosInf else NegInf)"
| "js_div NegInf (Num b) = (if 0 \<le> b then NegInf else PosInf)"
| "js_div _ _ = NaN"

text \<open>\<^verbatim>\<open>a > b\<close>: false as soon as one side is \<open>NaN\<close>.\<close>

fun js_gt :: "jsnum \<Rightarrow> jsnum \<Rightarrow> bool" where
  "js_gt (Num a) (Num b) = (b < a)"
| "js_gt NaN _ = False"
| "js_gt _ NaN = False"
| "js_gt PosInf b = (b \<noteq> PosInf)"
| "js_gt NegInf _ = False"
| "js_gt _ NegInf = True"
| "js_gt _ _ = False"

text \<open>\<^verbatim>\<open>Math.floor\<close> and \<^verbatim>\<open>Math.min\<close> of two arguments.\<close>

fun js_floor :: "jsnum \<Rightarrow> jsnum" where
  "js_floor (Num a) = Num (of_int \<lfloor>a\<rfloor>)"
| "js_floor v = v"

fun js_min :: "jsnum \<Rightarrow> jsnum \<Rightarrow> jsnum" where
  "js_min (Num a) (Num b) = Num (min a b)"
| "js_min NaN _ = NaN"
| "js_min _ NaN = NaN"
| "js_min NegInf _ = NegInf"
| "js_min _ NegInf = NegInf"
| "js_min PosInf b = b"
| "js_min a PosInf = a"

text \<open>
  \<^verbatim>\<open>+(x).toFixed(d)\<close>: \<^verbatim>\<open>toFixed\<close> writes the integer \<open>n\<close> nearest to
  \<open>x * 10^d\<close> (the larger one of two) as a decimal with \<open>d\<close> places, after taking the sign
  off, and writes \<open>x\<close> itself from \<open>10^21\<close> on; the unary plus reads the string back as the
  nearest double. \<open>NaN\<close> and the infinities are written and read back as themselves.
\<close>

fun to_fixed :: "nat \<Rightarrow> jsnum \<Rightarrow> jsnum" where
  "to_fixed d (Num x) =
     (if 10 ^ 21 \<le> \<bar>x\<bar> then Num x
      else Num (fl (sgn x * of_int \<lfloor>\<bar>x\<bar> * 10 ^ d + 1 / 2\<rfloor> / 10 ^ d)))"
| "to_fixed d v = v"

text \<open>
  An array subscript: a number selects an element when it is one of the indices
  \<open>0, \<dots>, n - 1\<close>.
\<close>

fun as_index :: "jsnum \<Rightarrow> nat \<Rightarrow> nat option" where
  "as_index (Num v) n =
     (if 0 \<le> v \<and> of_int \<lfloor>v\<rfloor> = v \<and> nat \<lfloor>v\<rfloor> < n then Some (nat \<lfloor>v\<rfloor>) else None)"
| "as_index _ n = None"

section \<open>\<^verbatim>\<open>analyze_pixels\<close>: coverage of a screenshot\<close>

text \<open>
  The decoded screenshot on the canvas: its size and the bytes that
  \<^verbatim>\<open>getImageData\<close> returns, four (R, G, B, A) per pixel, row after row.
\<close>

record canvas =
  canvas_width :: nat
  canvas_height :: nat
  canvas_data :: "8 word list"

definition qCols :: nat where "qCols = 4"
definition qRows :: nat where "qRows = 2"

text \<open>
  \<open>IndexSizeError\<close> is what \<^verbatim>\<open>getImageData\<close> throws for a rectangle of width or height
  zero, \<open>TypeError\<close> what reading \<^verbatim>\<open>quadrants[qr][qc]\<close> throws when there is no row
  \<^verbatim>\<open>qr\<close>. A column \<^verbatim>\<open>qc\<close> outside the row would not throw (the script would store
  \<open>NaN\<close> under a new index); the model stops there with \<open>OffGrid\<close>, and
  \<open>scan_pixels_total\<close> below shows that neither of the two ever happens.
\<close>

datatype js_error = IndexSizeError | TypeError | OffGrid

record scan =
  whiteTotal :: nat
  quadrants :: "nat list list"
  quadrantTotals :: "nat list list"

text \<open>Reading past the end of the data yields \<^verbatim>\<open>undefined\<close>, \<open>NaN\<close> in a sum.\<close>

definition channel :: "8 word list \<Rightarrow> nat \<Rightarrow> jsnum" where
  "channel dat i = (if i < length dat then Num (of_nat (unat (dat ! i))) else NaN)"

definition brightness :: "8 word list \<Rightarrow> nat \<Rightarrow> jsnum" where
  "brightness dat i =
     js_div (js_add (js_add (channel dat i) (channel dat (i + 1))) (channel dat (i + 2)))
       (Num 3)"

definition isWhite :: "8 word list \<Rightarrow> nat \<Rightarrow> nat" where
  "isWhite dat i = (if js_gt (brightness dat i) (Num 128) then 1 else 0)"

text \<open>
  \<^verbatim>\<open>Math.min(Math.floor(p / n * q), q - 1)\<close>, the row of pixel row \<open>p = y\<close> among
  \<open>n = h\<close> and the column of pixel column \<open>p = x\<close> among \<open>n = w\<close>.
\<close>

definition quad_index :: "nat \<Rightarrow> nat \<Rightarrow> nat \<Rightarrow> jsnum" where
  "quad_index p n q =
     js_min (js_floor (js_mul (js_div (Num (of_nat p)) (Num (of_nat n))) (Num (of_nat q))))
       (Num (of_nat q - 1))"

definition bump :: "nat list list \<Rightarrow> jsnum \<Rightarrow> jsnum \<Rightarrow> nat \<Rightarrow> js_error + nat list list" where
  "bump arr qr qc k =
     (case as_index qr (length arr) of
        None \<Rightarrow> Inl TypeError
      | Some r \<Rightarrow>
          (case as_index qc (length (arr ! r)) of
             None \<Rightarrow> Inl OffGrid
           | Some c \<Rightarrow> Inr (arr[r := (arr ! r)[c := arr ! r ! c + k]])))"

text \<open>The body of the two nested loops, for the pixel in column \<open>x\<close> of row \<open>y\<close>.\<close>

definition pixel_step :: "8 word list \<Rightarrow> nat \<Rightarrow> nat \<Rightarrow> nat \<Rightarrow> nat \<Rightarrow> scan \<Rightarrow> js_error + scan" where
  "pixel_step dat w h y x st =
     (let i = (y * w + x) * 4;
          white = isWhite dat i;
          qr = quad_index y h qRows;
          qc = quad_index x w qCols
      in case bump (quadrants st) qr qc white of
           Inl e \<Rightarrow> Inl e
         | Inr qs \<Rightarrow>
             (case bump (quadrantTotals st) qr qc 1 of
                Inl e \<Rightarrow> Inl e
              | Inr qts \<Rightarrow>
                  Inr \<lparr>whiteTotal = whiteTotal st + white, quadrants = qs,
                       quadrantTotals = qts\<rparr>))"

text \<open>A \<^verbatim>\<open>for\<close> loop over the indices \<open>is\<close> that stops at the first exception.\<close>

fun for_each :: "(nat \<Rightarrow> 's \<Rightarrow> js_error + 's) \<Rightarrow> nat list \<Rightarrow> 's \<Rightarrow> js_error + 's" where
  "for_each body [] st = Inr st"
| "for_each body (i # is) st =
     (case body i st of Inl e \<Rightarrow> Inl e | Inr st' \<Rightarrow> for_each body is st')"

definition scan_start :: scan where
  "scan_start =
     \<lparr>whiteTotal = 0, quadrants = replicate qRows (replicate qCols 0),
      quadrantTotals = replicate qRows (replicate qCols 0)\<rparr>"

definition scan_pixels :: "8 word list \<Rightarrow> nat \<Rightarrow> nat \<Rightarrow> js_error + scan" where
  "scan_pixels dat w h =
     for_each (\<lambda>y. for_each (\<lambda>x. pixel_step dat w h y x) [0..<w]) [0..<h] scan_start"

text \<open>
  \<^verbatim>\<open>quadrantPct\<close>: each count of \<^verbatim>\<open>quadrants\<close> over the count at the same place of
  \<^verbatim>\<open>quadrantTotals\<close>; the two arrays are created with the same shape and keep it.
\<close>

definition cell_pct :: "nat \<Rightarrow> nat \<Rightarrow> jsnum" where
  "cell_pct v t = to_fixed 1 (js_mul (js_div (Num (of_nat v)) (Num (of_nat t))) (Num 100))"

definition quadrantPct :: "nat list list \<Rightarrow> nat list list \<Rightarrow> jsnum list list" where
  "quadrantPct qs qts =
     map (\<lambda>ri. map (\<lambda>ci. cell_pct (qs ! ri ! ci) (qts ! ri ! ci)) [0..<length (qs ! ri)])
       [0..<length qs]"

record report =
  width :: nat
  height :: nat
  totalPixels :: nat
  whitePixels :: nat
  coveragePct :: jsnum
  quadrantCoverage :: "jsnum list list"

definition analyze_pixels :: "canvas \<Rightarrow> js_error + report" where
  "analyze_pixels cv =
     (let w = canvas_width cv; h = canvas_height cv
      in if w = 0 \<or> h = 0 then Inl IndexSizeError
         else let total = w * h
              in case scan_pixels (canvas_data cv) w h of
                   Inl e \<Rightarrow> Inl e
                 | Inr st \<Rightarrow>
                     Inr \<lparr>width = w, height = h, totalPixels = total,
                          whitePixels = whiteTotal st,
                          coveragePct =
                            to_fixed 2
                              (js_mul (js_div (Num (of_nat (whiteTotal st))) (Num (of_nat total)))
                                 (Num 100)),
                          quadrantCoverage =
                            quadrantPct (quadrants st) (quadrantTotals st)\<rparr>)"

section \<open>\<^verbatim>\<open>get_generated_stats\<close>: edges and chains of a generated pattern\<close>

text \<open>
  The page's generator (\<^verbatim>\<open>index.html\<close>) is not part of the sources: the node grid's
  size \<^verbatim>\<open>ROWS\<close> and \<^verbatim>\<open>COLS\<close>, the panels that \<^verbatim>\<open>TextEncoder_.encode\<close> returns
  and the \<^verbatim>\<open><path>\<close> elements of the rendered SVG are parameters. A panel answers
  \<^verbatim>\<open>getH(r, c)\<close> and \<^verbatim>\<open>getV(r, c)\<close> and carries the list \<^verbatim>\<open>dEdges\<close>, whose entries
  have a \<^verbatim>\<open>type\<close>; a path element has a \<^verbatim>\<open>d\<close> attribute, or none.
\<close>

record dedge =
  edge_type :: string

record grid =
  getH :: "nat \<Rightarrow> nat \<Rightarrow> bool"
  getV :: "nat \<Rightarrow> nat \<Rightarrow> bool"
  dEdges :: "dedge list"

record path =
  d :: "string option"

text \<open>The four counters, each running over all panels.\<close>

definition count_cells :: "(nat \<Rightarrow> nat \<Rightarrow> bool) \<Rightarrow> nat \<Rightarrow> nat \<Rightarrow> nat" where
  "count_cells present rs cs =
     sum_list (map (\<lambda>r. sum_list (map (\<lambda>c. if present r c then 1 else 0) [0..<cs])) [0..<rs])"

definition hCount :: "nat \<Rightarrow> nat \<Rightarrow> grid list \<Rightarrow> nat" where
  "hCount ROWS COLS grids = sum_list (map (\<lambda>g. count_cells (getH g) ROWS (COLS - 1)) grids)"

definition vCount :: "nat \<Rightarrow> nat \<Rightarrow> grid list \<Rightarrow> nat" where
  "vCount ROWS COLS grids = sum_list (map (\<lambda>g. count_cells (getV g) (ROWS - 1) COLS) grids)"

definition arcCount :: "grid list \<Rightarrow> nat" where
  "arcCount grids =
     sum_list (map (\<lambda>g. length (filter (\<lambda>e. edge_type e = ''arc'') (dEdges g))) grids)"

definition diagCount :: "grid list \<Rightarrow> nat" where
  "diagCount grids =
     sum_list (map (\<lambda>g. length (filter (\<lambda>e. edge_type e \<noteq> ''arc'') (dEdges g))) grids)"

definition maxEdges :: nat where
  "maxEdges = 80 + 68 + 64"

text \<open>
  \<^verbatim>\<open>(d.match(/[HVLC]/g) || []).length\<close> with \<^verbatim>\<open>d = p.getAttribute('d') || ''\<close>: the
  number of letters H, V, L and C in the attribute.
\<close>

definition segs :: "path \<Rightarrow> nat" where
  "segs p =
     length (filter (\<lambda>ch. ch \<in> set ''HVLC'') (case d p of None \<Rightarrow> [] | Some s \<Rightarrow> s))"

definition chain_lengths :: "path list \<Rightarrow> nat list" where
  "chain_lengths paths = map segs paths"

definition avg_chain :: "nat list \<Rightarrow> jsnum" where
  "avg_chain cl =
     (if 0 < length cl
      then to_fixed 1
             (js_div (foldl (\<lambda>a b. js_add a (Num (of_nat b))) (Num 0) cl)
                (Num (of_nat (length cl))))
      else Num 0)"

definition max_chain :: "nat list \<Rightarrow> nat" where
  "max_chain cl = (if 0 < length cl then fold max (tl cl) (hd cl) else 0)"

record stats =
  "text" :: string
  panels :: nat
  hEdges :: nat
  vEdges :: nat
  arcs :: nat
  diags :: nat
  totalEdges :: nat
  edgeDensity :: jsnum
  pathCount :: nat
  chainLengths :: "nat list"
  avgChain :: jsnum
  maxChain :: nat

text \<open>
  The script evaluated in the page for one input text. The record it returns also carries
  the SVG text along, which no measurement reads; that field is left out.
\<close>

definition pattern_stats :: "nat \<Rightarrow> nat \<Rightarrow> string \<Rightarrow> grid list \<Rightarrow> path list \<Rightarrow> stats" where
  "pattern_stats ROWS COLS txt grids paths =
     (let total = hCount ROWS COLS grids + vCount ROWS COLS grids + arcCount grids
                    + diagCount grids;
          cl = chain_lengths paths
      in \<lparr>text = txt, panels = length grids,
          hEdges = hCount ROWS COLS grids, vEdges = vCount ROWS COLS grids,
          arcs = arcCount grids, diags = diagCount grids,
          totalEdges = total,
          edgeDensity =
            to_fixed 1 (js_mul (js_div (Num (of_nat total)) (Num (of_nat maxEdges))) (Num 100)),
          pathCount = length paths,
          chainLengths = cl,
          avgChain = avg_chain cl,
          maxChain = max_chain cl\<rparr>)"

definition TEST_INPUTS :: "string list" where
  "TEST_INPUTS = [''HELLO WORLD'', ''THE QUICK BROWN FOX JUM'', ''ABCDEFGHIJKLM'', ''1234567890'']"

text \<open>
  The dictionary \<^verbatim>\<open>results\<close>, one entry per test input; \<open>encode\<close> stands for
  \<^verbatim>\<open>TextEncoder_.encode\<close> and \<open>svg_paths\<close> for the path elements of the SVG that
  \<^verbatim>\<open>SVGRenderer.render\<close> draws for the panels.
\<close>

definition get_generated_stats ::
  "nat \<Rightarrow> nat \<Rightarrow> (string \<Rightarrow> grid list) \<Rightarrow> (grid list \<Rightarrow> path list) \<Rightarrow> (string \<times> stats) list" where
  "get_generated_stats ROWS COLS encode svg_paths =
     map (\<lambda>txt. (txt, pattern_stats ROWS COLS txt (encode txt) (svg_paths (encode txt))))
       TEST_INPUTS"

section \<open>\<^verbatim>\<open>main\<close>: the average coverage\<close>

text \<open>
  \<^verbatim>\<open>sum(...) / len(...) if ... else 0\<close> over the \<^verbatim>\<open>coveragePct\<close> values of the
  analysed screenshots (lines 196 and 240). Python's floats are the same doubles; its
  division raises \<^verbatim>\<open>ZeroDivisionError\<close> for the divisor 0.
\<close>

datatype py_error = ZeroDivisionError

definition py_div :: "jsnum \<Rightarrow> nat \<Rightarrow> py_error + jsnum" where
  "py_div a n = (if n = 0 then Inl ZeroDivisionError else Inr (js_div a (Num (of_nat n))))"

definition avg_coverage :: "jsnum list \<Rightarrow> py_error + jsnum" where
  "avg_coverage cs =
     (if cs \<noteq> [] then py_div (foldl js_add (Num 0) cs) (length cs) else Inr (Num 0))"

section \<open>Quantities of the stated properties\<close>

text \<open>The number of pixels, or of white pixels, that a 2 by 4 array of counts holds.\<close>

definition grid_sum :: "nat list list \<Rightarrow> nat" where
  "grid_sum a = sum_list (map sum_list a)"



text \<open>
  The mean of the red, green and blue byte of the pixel in column \<open>x\<close> of row \<open>y\<close> of a
  buffer \<open>w\<close> pixels wide, four bytes per pixel, and the number of pixels of the buffer
  whose mean is above 128.
\<close>

definition mean_rgb :: "8 word list \<Rightarrow> nat \<Rightarrow> nat \<Rightarrow> nat \<Rightarrow> rat" where
  "mean_rgb dat w x y =
     of_nat (unat (dat ! ((y * w + x) * 4)) + unat (dat ! ((y * w + x) * 4 + 1))
               + unat (dat ! ((y * w + x) * 4 + 2))) / 3"

definition bright_pixels :: "8 word list \<Rightarrow> nat \<Rightarrow> nat \<Rightarrow> nat" where
  "bright_pixels dat w h =
     sum_list (map (\<lambda>y. sum_list (map (\<lambda>x. if 128 < mean_rgb dat w x y then 1 else 0) [0..<w]))
                 [0..<h])"

text \<open>
  What the two nested loops keep true, after \<open>n\<close> pixels: both arrays have 2 rows of 4
  cells, \<^verbatim>\<open>quadrantTotals\<close> holds \<open>n\<close> pixels in all, \<^verbatim>\<open>quadrants\<close> holds the white
  ones, and no cell has more white pixels than pixels.
\<close>

definition well_shaped :: "nat list list \<Rightarrow> bool" where
  "well_shaped a \<longleftrightarrow> length a = qRows \<and> (\<forall>r<qRows. length (a ! r) = qCols)"

definition scan_inv :: "nat \<Rightarrow> scan \<Rightarrow> bool" where
  "scan_inv n st \<longleftrightarrow>
     well_shaped (quadrants st) \<and> well_shaped (quadrantTotals st)
     \<and> grid_sum (quadrantTotals st) = n
     \<and> grid_sum (quadrants st) = whiteTotal st
     \<and> (\<forall>r<qRows. \<forall>c<qCols. quadrants st ! r ! c \<le> quadrantTotals st ! r ! c)"

text \<open>
  For the pixel in column \<open>x\<close> of row \<open>y\<close>: the cell that the assignment rule gives it, and
  that this cell has received a pixel. Between two states of the scan the pixel totals of
  the cells only grow.
\<close>

definition cell_of :: "nat \<Rightarrow> nat \<Rightarrow> nat \<Rightarrow> nat \<Rightarrow> nat \<Rightarrow> nat \<Rightarrow> bool" where
  "cell_of w h x y r c \<longleftrightarrow>
     quad_index y h qRows = Num (of_nat r) \<and> quad_index x w qCols = Num (of_nat c)"

definition covered :: "nat \<Rightarrow> nat \<Rightarrow> nat \<Rightarrow> nat \<Rightarrow> scan \<Rightarrow> bool" where
  "covered w h x y st \<longleftrightarrow>
     (\<forall>r<qRows. \<forall>c<qCols. cell_of w h x y r c \<longrightarrow> 1 \<le> quadrantTotals st ! r ! c)"

definition cells_grow :: "scan \<Rightarrow> scan \<Rightarrow> bool" where
  "cells_grow st st' \<longleftrightarrow>
     (\<forall>r<qRows. \<forall>c<qCols. quadrantTotals st ! r ! c \<le> quadrantTotals st' ! r ! c)"

section \<open>Rounding to a double\<close>

lemma round_half_even_error: "\<bar>of_int (round_half_even r) - r\<bar> \<le> 1 / 2"
proof -
  have "of_int \<lfloor>r\<rfloor> \<le> r" "r < of_int \<lfloor>r\<rfloor> + 1"
    by linarith+
  then show ?thesis
    unfolding round_half_even_def Let_def by (auto simp: abs_le_iff)
qed

lemma round_half_even_of_int: "round_half_even (of_int n) = n"
  by (simp add: round_half_even_def)

lemma round_half_even_nonneg: "0 \<le> r \<Longrightarrow> 0 \<le> round_half_even r"
  unfolding round_half_even_def Let_def by (auto simp: zero_le_floor) 

lemma binary_exponent_le:
  assumes "0 < a"
  shows "2 powi (binary_exponent a) \<le> a"
proof (cases "1 \<le> a")
  case True
  define m where "m = \<lfloor>a\<rfloor>"
  have m: "0 < m" using True by (simp add: m_def)
  then have b: "1 \<le> bitlen m" by (simp add: bitlen_alt_def)
  have "(2::int) ^ nat (bitlen m - 1) \<le> m" using bitlen_bounds [OF m] by simp
  then have "(of_int (2 ^ nat (bitlen m - 1)) :: rat) \<le> of_int m"
    by (simp only: of_int_le_iff)
  also have "\<dots> \<le> a" by (simp add: m_def)
  finally have "(2::rat) ^ nat (bitlen m - 1) \<le> a" by simp
  moreover have "binary_exponent a = bitlen m - 1"
    using True by (simp add: binary_exponent_def m_def)
  ultimately show ?thesis using b by (simp add: power_int_def)
next
  case False
  define n where "n = \<lceil>1 / a\<rceil>"
  define b where "b = bitlen (n - 1)"
  have "1 < 1 / a" using False assms by simp
  then have n: "0 < n - 1" unfolding n_def by linarith
  have "n - 1 < 2 ^ nat b" using bitlen_bounds [OF n] by (simp add: b_def)
  then have "n \<le> 2 ^ nat b" by simp
  then have "(of_int n :: rat) \<le> of_int (2 ^ nat b)" by (simp only: of_int_le_iff)
  then have "(of_int n :: rat) \<le> 2 ^ nat b" by simp
  moreover have "1 / a \<le> of_int n" by (simp add: n_def)
  ultimately have "1 / a \<le> 2 ^ nat b" by (rule order_trans [rotated])
  then have "1 / 2 ^ nat b \<le> a" using assms
    by (simp add: field_simps)
  moreover have "binary_exponent a = - b"
    using False by (simp add: binary_exponent_def n_def b_def)
  moreover have "0 \<le> b" by (simp add: b_def bitlen_nonneg)
  moreover have "(2::rat) powi (- b) = 1 / 2 ^ nat b"
    using \<open>0 \<le> b\<close> by (simp add: power_int_minus power_int_def field_simps)
  ultimately show ?thesis by simp
qed

lemma binary_exponent_gt:
  assumes "0 < a"
  shows "a < 2 powi (binary_exponent a + 1)"
proof (cases "1 \<le> a")
  case True
  define m where "m = \<lfloor>a\<rfloor>"
  have m: "0 < m" using True by (simp add: m_def)
  then have b: "1 \<le> bitlen m" by (simp add: bitlen_alt_def)
  have "m < 2 ^ nat (bitlen m)" using bitlen_bounds [OF m] by simp
  then have "m + 1 \<le> 2 ^ nat (bitlen m)" by simp
  then have "(of_int (m + 1) :: rat) \<le> of_int (2 ^ nat (bitlen m))"
    by (simp only: of_int_le_iff)
  then have "(of_int m :: rat) + 1 \<le> 2 ^ nat (bitlen m)" by simp
  moreover have "a < of_int m + 1" unfolding m_def by linarith
  ultimately have "a < 2 ^ nat (bitlen m)" by (rule less_le_trans [rotated])
  moreover have "binary_exponent a + 1 = bitlen m"
    using True by (simp add: binary_exponent_def m_def)
  ultimately show ?thesis using b by (simp add: power_int_def)
next
  case False
  define n where "n = \<lceil>1 / a\<rceil>"
  define b where "b = bitlen (n - 1)"
  have "1 < 1 / a" using False assms by simp
  then have n: "0 < n - 1" unfolding n_def by linarith
  then have b1: "1 \<le> b" by (simp add: b_def bitlen_alt_def)
  have "2 ^ nat (b - 1) \<le> n - 1" using bitlen_bounds [OF n] by (simp add: b_def)
  then have "(of_int (2 ^ nat (b - 1)) :: rat) \<le> of_int (n - 1)"
    by (simp only: of_int_le_iff)
  then have "(2 :: rat) ^ nat (b - 1) \<le> of_int n - 1" by simp
  moreover have "of_int n - 1 < 1 / a" unfolding n_def by linarith
  ultimately have "2 ^ nat (b - 1) < 1 / a" by (rule le_less_trans)
  then have "a < 1 / 2 ^ nat (b - 1)" using assms by (simp add: field_simps)
  moreover have "binary_exponent a + 1 = - (b - 1)"
    using False by (simp add: binary_exponent_def n_def b_def)
  moreover have "(2::rat) powi (- (b - 1)) = 1 / 2 ^ nat (b - 1)"
    using b1 by (simp add: power_int_minus power_int_def field_simps)
  ultimately show ?thesis by simp
qed

lemma fl_one_tenth: "fl (1 / 10) = 3602879701896397 / 2 ^ 55"
  by code_simp

lemma fl_error: "\<bar>fl x - x\<bar> \<le> \<bar>x\<bar> / 2 ^ 53"
proof (cases "x = 0")
  case True
  then show ?thesis by (simp add: fl_def)
next
  case False
  define a where "a = \<bar>x\<bar>"
  define e where "e = binary_exponent a"
  define u :: rat where "u = 2 powi (e - 52)"
  define n where "n = round_half_even (a / u)"
  have a: "0 < a" using False by (simp add: a_def)
  have u: "0 < u" by (simp add: u_def)
  have ue: "u = 2 powi e / 2 ^ 52" by (simp add: u_def power_int_diff)
  have "fl x = sgn x * of_int n * u"
    using False by (simp add: fl_def Let_def n_def u_def e_def a_def)
  moreover have "x = sgn x * a" by (simp add: a_def sgn_mult_abs flip: mult_sgn_abs)
  ultimately have "fl x - x = sgn x * (of_int n * u - a)"
    by (simp add: algebra_simps)
  then have "\<bar>fl x - x\<bar> = \<bar>of_int n * u - a\<bar>"
    using False by (simp add: abs_mult abs_sgn_eq)
  also have "of_int n * u - a = (of_int n - a / u) * u" using u by (simp add: field_simps)
  also have "\<bar>\<dots>\<bar> = \<bar>of_int n - a / u\<bar> * u" using u by (simp add: abs_mult)
  also have "\<dots> \<le> 1 / 2 * u"
    using round_half_even_error [of "a / u"] u unfolding n_def
    by (intro mult_right_mono) auto
  also have "\<dots> = 2 powi e / 2 ^ 53" by (simp add: ue)
  also have "\<dots> \<le> a / 2 ^ 53"
    using binary_exponent_le [OF a] by (simp add: e_def divide_right_mono)
  finally show ?thesis by (simp add: a_def)
qed

lemma fl_nonneg: "0 \<le> x \<Longrightarrow> 0 \<le> fl x"
  by (auto simp: fl_def Let_def intro!: mult_nonneg_nonneg round_half_even_nonneg divide_nonneg_nonneg)

lemma fl_of_int:
  assumes "\<bar>k\<bar> \<le> 2 ^ 53"
  shows "fl (of_int k) = of_int k"
proof (cases "k = 0")
  case True
  then show ?thesis by (simp add: fl_def)
next
  case False
  define m where "m = \<bar>k\<bar>"
  define e where "e = bitlen m - 1"
  have m: "0 < m" using False by (simp add: m_def)
  have am: "\<bar>of_int k :: rat\<bar> = of_int m" by (simp add: m_def)
  have be: "binary_exponent (of_int m) = e"
    using m by (simp add: binary_exponent_def e_def)
  have e0: "0 \<le> e" using m by (simp add: e_def bitlen_alt_def)
  have "(2::int) ^ nat e \<le> m" using bitlen_bounds [OF m] by (simp add: e_def)
  moreover have "m \<le> 2 ^ 53" using assms by (simp add: m_def)
  ultimately have "(2::int) ^ nat e \<le> 2 ^ 53" by (rule order_trans)
  then have "nat e \<le> 53" by (rule power_le_imp_le_exp [rotated]) simp
  then have e53: "e \<le> 53" by simp
  have "\<exists>j. of_int m / 2 powi (e - 52) = (of_int j :: rat)"
  proof (cases "e \<le> 52")
    case True
    then have "(2::rat) powi (e - 52) = 1 / 2 ^ nat (52 - e)"
      by (simp add: power_int_def field_simps)
    then have "of_int m / 2 powi (e - 52) = (of_int (m * 2 ^ nat (52 - e)) :: rat)"
      by simp
    then show ?thesis by blast
  next
    case False
    then have e: "e = 53" using e53 by simp
    have "(2::int) ^ 53 \<le> m" using \<open>(2::int) ^ nat e \<le> m\<close> e by simp
    then have "m = 2 ^ 53" using assms by (simp add: m_def)
    then have "of_int m / 2 powi (e - 52) = (of_int (2 ^ 52) :: rat)"
      using e by simp
    then show ?thesis by blast
  qed
  then obtain j where j: "of_int m / 2 powi (e - 52) = (of_int j :: rat)" ..
  have "fl (of_int k) = sgn (of_int k) * of_int j * 2 powi (e - 52)"
    using False by (simp add: fl_def Let_def am be j round_half_even_of_int)
  also have "\<dots> = sgn (of_int k) * (of_int m / 2 powi (e - 52)) * 2 powi (e - 52)"
    by (simp add: j)
  also have "\<dots> = sgn (of_int k) * of_int m" by simp
  also have "\<dots> = of_int k" unfolding am [symmetric] by (rule mult_sgn_abs)
  finally show ?thesis .
qed

lemma fl_of_nat:
  assumes "n \<le> 2 ^ 53"
  shows "fl (of_nat n) = of_nat n"
proof -
  have "int n \<le> int (2 ^ 53)" using assms by (simp only: of_nat_le_iff)
  then have "\<bar>int n\<bar> \<le> 2 ^ 53" by simp
  from fl_of_int [OF this] show ?thesis by simp
qed

section \<open>Chains of the generated paths\<close>

text \<open>
  C10: the reported \<^verbatim>\<open>pathCount\<close> is the length of the reported \<^verbatim>\<open>chainLengths\<close>.
  Every path element contributes exactly one entry, the number of its segment letters; the
  entry is 0 for an element without a \<^verbatim>\<open>d\<close> attribute, with an empty one, or with one
  that holds none of the letters H, V, L and C.
\<close>

theorem pathCount_is_length_of_chainLengths:
  "pathCount (pattern_stats ROWS COLS txt grids paths)
     = length (chainLengths (pattern_stats ROWS COLS txt grids paths))
   \<and> chainLengths (pattern_stats ROWS COLS txt grids paths) = map segs paths
   \<and> segs \<lparr>d = None\<rparr> = 0
   \<and> segs \<lparr>d = Some ''''\<rparr> = 0
   \<and> (set s \<inter> set ''HVLC'' = {} \<longrightarrow> segs \<lparr>d = Some s\<rparr> = 0)"
proof -
  have "set s \<inter> set ''HVLC'' = {} \<Longrightarrow> filter (\<lambda>ch. ch \<in> set ''HVLC'') s = []"
    by (rule filter_False) blast
  then show ?thesis
    by (simp add: pattern_stats_def chain_lengths_def segs_def Let_def)
qed

theorem pathCount_is_length_of_chainLengths_witness:
  "set ''M0 0'' \<inter> set ''HVLC'' = {}
   \<and> segs \<lparr>d = Some ''M0 0''\<rparr> = 0
   \<and> pathCount (pattern_stats 5 17 ''HELLO WORLD'' []
        [\<lparr>d = None\<rparr>, \<lparr>d = Some ''M0 0''\<rparr>, \<lparr>d = Some ''M0 0H10''\<rparr>]) = 3
   \<and> chainLengths (pattern_stats 5 17 ''HELLO WORLD'' []
        [\<lparr>d = None\<rparr>, \<lparr>d = Some ''M0 0''\<rparr>, \<lparr>d = Some ''M0 0H10''\<rparr>]) = [0, 0, 1]"
proof -
  have h: "set ''M0 0'' \<inter> set ''HVLC'' = {}" by simp
  note t = pathCount_is_length_of_chainLengths [of 5 17 "''HELLO WORLD''" "[]"
      "[\<lparr>d = None\<rparr>, \<lparr>d = Some ''M0 0''\<rparr>, \<lparr>d = Some ''M0 0H10''\<rparr>]" "''M0 0''"]
  from t h have z: "segs \<lparr>d = Some ''M0 0''\<rparr> = 0" by blast
  have o: "segs \<lparr>d = Some ''M0 0H10''\<rparr> = 1" by (simp add: segs_def)
  from t have n: "segs \<lparr>d = None\<rparr> = 0" by blast
  from t have c: "chainLengths (pattern_stats 5 17 ''HELLO WORLD'' []
        [\<lparr>d = None\<rparr>, \<lparr>d = Some ''M0 0''\<rparr>, \<lparr>d = Some ''M0 0H10''\<rparr>])
      = map segs [\<lparr>d = None\<rparr>, \<lparr>d = Some ''M0 0''\<rparr>, \<lparr>d = Some ''M0 0H10''\<rparr>]"
    by blast
  from t have p: "pathCount (pattern_stats 5 17 ''HELLO WORLD'' []
        [\<lparr>d = None\<rparr>, \<lparr>d = Some ''M0 0''\<rparr>, \<lparr>d = Some ''M0 0H10''\<rparr>])
      = length (chainLengths (pattern_stats 5 17 ''HELLO WORLD'' []
        [\<lparr>d = None\<rparr>, \<lparr>d = Some ''M0 0''\<rparr>, \<lparr>d = Some ''M0 0H10''\<rparr>]))"
    by blast
  show ?thesis using h z p c o n by simp
qed

text \<open>
  C1 as stated does not hold: the path \<^verbatim>\<open>M0 0\<close> is not left out. For the two paths of
  the scenario the reported chain lengths are not \<open>[3]\<close> and the average is not 3.
\<close>

theorem degenerate_path_is_not_excluded:
  "chainLengths (pattern_stats 5 17 ''HELLO WORLD'' []
      [\<lparr>d = Some ''M0 0H10V10L5 5''\<rparr>, \<lparr>d = Some ''M0 0''\<rparr>]) \<noteq> [3]
   \<and> avgChain (pattern_stats 5 17 ''HELLO WORLD'' []
      [\<lparr>d = Some ''M0 0H10V10L5 5''\<rparr>, \<lparr>d = Some ''M0 0''\<rparr>]) \<noteq> Num 3"
  by code_simp

text \<open>
  C1, amended: a path without segment letters contributes the entry 0 at its place in
  \<^verbatim>\<open>chainLengths\<close>; for the paths \<^verbatim>\<open>M0 0H10V10L5 5\<close> and \<^verbatim>\<open>M0 0\<close> the chain lengths
  are \<open>[3, 0]\<close>, the average is 1.5 and the maximum is 3.
\<close>

theorem degenerate_path_contributes_zero:
  "(segs p = 0 \<longrightarrow>
      chainLengths (pattern_stats ROWS COLS txt grids (ps @ p # qs))
        = chainLengths (pattern_stats ROWS COLS txt grids ps) @ 0
            # chainLengths (pattern_stats ROWS COLS txt grids qs))
   \<and> chainLengths (pattern_stats ROWS COLS txt grids
        [\<lparr>d = Some ''M0 0H10V10L5 5''\<rparr>, \<lparr>d = Some ''M0 0''\<rparr>]) = [3, 0]
   \<and> avgChain (pattern_stats ROWS COLS txt grids
        [\<lparr>d = Some ''M0 0H10V10L5 5''\<rparr>, \<lparr>d = Some ''M0 0''\<rparr>]) = Num (3 / 2)
   \<and> maxChain (pattern_stats ROWS COLS txt grids
        [\<lparr>d = Some ''M0 0H10V10L5 5''\<rparr>, \<lparr>d = Some ''M0 0''\<rparr>]) = 3"
proof -
  have a: "avg_chain [3, 0] = Num (3 / 2)" by code_simp
  have m: "max_chain [3, 0] = 3" by code_simp
  have cl: "chain_lengths [\<lparr>d = Some ''M0 0H10V10L5 5''\<rparr>, \<lparr>d = Some ''M0 0''\<rparr>] = [3, 0]"
    by (simp add: chain_lengths_def segs_def)
  have "segs p = 0 \<longrightarrow> chain_lengths (ps @ p # qs) = chain_lengths ps @ 0 # chain_lengths qs"
    by (simp add: chain_lengths_def)
  then show ?thesis
    by (simp add: pattern_stats_def Let_def cl a m)
qed

theorem degenerate_path_contributes_zero_witness:
  "segs \<lparr>d = Some ''M0 0''\<rparr> = 0
   \<and> chainLengths (pattern_stats 5 17 ''HELLO WORLD'' []
        ([\<lparr>d = Some ''M0 0H10V10L5 5''\<rparr>] @ \<lparr>d = Some ''M0 0''\<rparr> # []))
      = chainLengths (pattern_stats 5 17 ''HELLO WORLD'' [] [\<lparr>d = Some ''M0 0H10V10L5 5''\<rparr>])
          @ 0 # chainLengths (pattern_stats 5 17 ''HELLO WORLD'' [] [])"
proof -
  have h: "segs \<lparr>d = Some ''M0 0''\<rparr> = 0" by (simp add: segs_def)
  from degenerate_path_contributes_zero [of "\<lparr>d = Some ''M0 0''\<rparr>" 5 17 "''HELLO WORLD''" "[]"
      "[\<lparr>d = Some ''M0 0H10V10L5 5''\<rparr>]" "[]"] h
  show ?thesis by blast
qed

section \<open>The average coverage\<close>

text \<open>
  C2 as stated does not hold: for no report at all the average is the number 0, not an
  error.
\<close>

theorem empty_average_returns_zero: "avg_coverage [] = Inr (Num 0)"
  by (simp add: avg_coverage_def)

text \<open>
  C2, amended: the average never fails; for the empty sequence of coverage values it is 0,
  as the guard \<^verbatim>\<open>if ref_stats else 0\<close> says.
\<close>

theorem average_never_fails:
  "\<exists>v. avg_coverage cs = Inr v \<and> (cs = [] \<longrightarrow> v = Num 0)"
  by (simp add: avg_coverage_def py_div_def)

theorem average_never_fails_witness:
  "\<exists>v. avg_coverage [] = Inr v \<and> v = Num 0"
  using average_never_fails [of "[]"] by simp

section \<open>Edges\<close>

text \<open>
  One panel whose \<^verbatim>\<open>dEdges\<close> holds at most one entry for each of the 64 diagonal slots
  stays within \<^verbatim>\<open>maxEdges\<close>.
\<close>

lemma sum_list_flags: "sum_list (map (\<lambda>x. if P x then 1 else 0) xs) \<le> length xs"
  by (induction xs) simp_all

lemma count_cells_le: "count_cells present rs cs \<le> rs * cs"
proof -
  have "sum_list (map (\<lambda>r. sum_list (map (\<lambda>c. if present r c then 1 else 0) [0..<cs])) js)
      \<le> length js * cs" for js
  proof (induction js)
    case Nil
    then show ?case by simp
  next
    case (Cons j js)
    have "sum_list (map (\<lambda>c. if present j c then 1 else 0) [0..<cs]) \<le> cs"
      using sum_list_flags [of "present j" "[0..<cs]"] by simp
    with Cons show ?case by simp
  qed
  from this [of "[0..<rs]"] show ?thesis by (simp add: count_cells_def)
qed

lemma single_panel_within_maxEdges:
  assumes "length (dEdges g) \<le> 64"
  shows "totalEdges (pattern_stats 5 17 txt [g] paths) \<le> maxEdges"
proof -
  have "hCount 5 17 [g] \<le> 80" using count_cells_le [of "getH g" 5 16] by (simp add: hCount_def)
  moreover have "vCount 5 17 [g] \<le> 68"
    using count_cells_le [of "getV g" 4 17] by (simp add: vCount_def)
  moreover have "arcCount [g] + diagCount [g] = length (dEdges g)"
    by (simp add: arcCount_def diagCount_def sum_length_filter_compl)
  ultimately show ?thesis
    using assms by (simp add: pattern_stats_def Let_def maxEdges_def)
qed

text \<open>
  C6 fails for two panels: \<^verbatim>\<open>maxEdges\<close> counts the slots of one panel, the counters
  run over all of them. Two panels with every horizontal and vertical edge present have
  296 edges, more than the 212 of \<^verbatim>\<open>maxEdges\<close>, and a density above 100.
\<close>

theorem two_full_panels_exceed_maxEdges:
  "totalEdges (pattern_stats 5 17 ''HELLO WORLD''
      [\<lparr>getH = \<lambda>r c. True, getV = \<lambda>r c. True, dEdges = []\<rparr>,
       \<lparr>getH = \<lambda>r c. True, getV = \<lambda>r c. True, dEdges = []\<rparr>] []) = 296
   \<and> maxEdges = 212
   \<and> edgeDensity (pattern_stats 5 17 ''HELLO WORLD''
      [\<lparr>getH = \<lambda>r c. True, getV = \<lambda>r c. True, dEdges = []\<rparr>,
       \<lparr>getH = \<lambda>r c. True, getV = \<lambda>r c. True, dEdges = []\<rparr>] []) = Num (fl (698 / 5))
   \<and> 100 < fl (698 / 5)"
  by code_simp

section \<open>Cells without pixels\<close>

text \<open>
  C8 fails on a screenshot of one white pixel: seven of the eight cells receive no pixel,
  and each of them is reported as \<open>NaN\<close>, the value of \<open>0 / 0\<close>, not as 0.
\<close>

theorem cell_without_pixels_is_NaN:
  "analyze_pixels \<lparr>canvas_width = 1, canvas_height = 1, canvas_data = [255, 255, 255, 255]\<rparr>
     = Inr \<lparr>width = 1, height = 1, totalPixels = 1, whitePixels = 1, coveragePct = Num 100,
            quadrantCoverage = [[Num 100, NaN, NaN, NaN], [NaN, NaN, NaN, NaN]]\<rparr>"
  by code_simp

section \<open>White pixels\<close>

lemma white_threshold: "128 < fl (of_nat s / 3) \<longleftrightarrow> 384 < s"
proof -
  define x :: rat where "x = of_nat s / 3"
  have x0: "0 \<le> x" by (simp add: x_def)
  have "\<bar>fl x - x\<bar> \<le> x / 2 ^ 53" using fl_error [of x] x0 by simp
  then have e0: "\<bar>fl x - x\<bar> \<le> x / 9007199254740992" by simp
  have e: "x - x / 9007199254740992 \<le> fl x" "fl x \<le> x + x / 9007199254740992"
    using e0 by linarith+
  consider "385 \<le> s" | "s = 384" | "s \<le> 383" by linarith
  then show ?thesis
  proof cases
    case 1
    then have "(385 :: rat) \<le> of_nat s" by (metis of_nat_le_iff of_nat_numeral)
    then have "385 / 3 \<le> x" by (simp add: x_def)
    with e have "128 < fl x" by linarith
    with 1 show ?thesis by (simp add: x_def)
  next
    case 2
    have "fl (of_nat 128) = of_nat 128" by (rule fl_of_nat) simp
    with 2 show ?thesis by simp
  next
    case 3
    then have "of_nat s \<le> (383 :: rat)" by (metis of_nat_le_iff of_nat_numeral)
    then have "x \<le> 383 / 3" by (simp add: x_def)
    with e x0 have "fl x < 128" by linarith
    with 3 show ?thesis by (simp add: x_def)
  qed
qed

lemma js_add_counts:
  assumes "a + b + c \<le> 2 ^ 53"
  shows "js_add (js_add (Num (of_nat a)) (Num (of_nat b))) (Num (of_nat c))
    = Num (of_nat (a + b + c))"
proof -
  from assms have "a + b \<le> 2 ^ 53" by linarith
  from fl_of_nat [OF this] fl_of_nat [OF assms] show ?thesis by simp
qed

lemma brightness_in_range:
  assumes "i + 2 < length dat"
    and "s = unat (dat ! i) + unat (dat ! (i + 1)) + unat (dat ! (i + 2))"
  shows "brightness dat i = Num (fl (of_nat s / 3))"
proof -
  have b: "unat w < 256" for w :: "8 word"
    using unsigned_less [of w, where ?'a = nat] by simp
  have "s < 768"
    using b [of "dat ! i"] b [of "dat ! (i + 1)"] b [of "dat ! (i + 2)"] assms(2) by linarith
  then have s: "unat (dat ! i) + unat (dat ! (i + 1)) + unat (dat ! (i + 2)) \<le> 2 ^ 53"
    using assms(2) by simp
  have c: "channel dat i = Num (of_nat (unat (dat ! i)))"
    "channel dat (i + 1) = Num (of_nat (unat (dat ! (i + 1))))"
    "channel dat (i + 2) = Num (of_nat (unat (dat ! (i + 2))))"
    using assms(1) by (simp_all add: channel_def)
  show ?thesis
    unfolding brightness_def c js_add_counts [OF s] assms(2) by simp
qed

lemma isWhite_mean:
  assumes "i + 2 < length dat"
  shows "(isWhite dat i = 1 \<longleftrightarrow>
            128 < (of_nat (unat (dat ! i) + unat (dat ! (i + 1)) + unat (dat ! (i + 2))) :: rat) / 3)
    \<and> (isWhite dat i = 0 \<longleftrightarrow>
            (of_nat (unat (dat ! i) + unat (dat ! (i + 1)) + unat (dat ! (i + 2))) :: rat) / 3 \<le> 128)
    \<and> isWhite (dat[i + 3 := alpha]) i = isWhite dat i"
proof -
  define s where "s = unat (dat ! i) + unat (dat ! (i + 1)) + unat (dat ! (i + 2))"
  have a: "i + 2 < length (dat[i + 3 := alpha])" using assms by simp
  have s': "s = unat (dat[i + 3 := alpha] ! i) + unat (dat[i + 3 := alpha] ! (i + 1))
      + unat (dat[i + 3 := alpha] ! (i + 2))"
    by (simp add: s_def)
  have alpha: "isWhite (dat[i + 3 := alpha]) i = isWhite dat i"
    unfolding isWhite_def brightness_in_range [OF a s'] brightness_in_range [OF assms s_def] ..
  have mean: "(128 < (of_nat s :: rat) / 3) = (384 < s)"
  proof -
    have "(128 < (of_nat s :: rat) / 3) = ((of_nat 384 :: rat) < of_nat s)" by auto
    then show ?thesis by (simp only: of_nat_less_iff)
  qed
  have white: "isWhite dat i = 1 \<longleftrightarrow> 128 < (of_nat s :: rat) / 3"
    unfolding mean isWhite_def brightness_in_range [OF assms s_def]
    by (simp add: white_threshold)
  have "isWhite dat i = 0 \<or> isWhite dat i = 1" by (simp add: isWhite_def)
  with white have black: "isWhite dat i = 0 \<longleftrightarrow> (of_nat s :: rat) / 3 \<le> 128"
    by (auto simp: not_less [symmetric])
  from white black alpha show ?thesis unfolding s_def by blast
qed

section \<open>The scan of the pixels\<close>

lemma quad_index_in_range:
  assumes "0 < n" and "0 < q"
  shows "\<exists>j<q. quad_index p n q = Num (of_nat j)"
proof -
  define v where "v = fl (fl (of_nat p / of_nat n) * of_nat q)"
  define f where "f = min \<lfloor>v\<rfloor> (int q - 1)"
  have "0 \<le> fl (of_nat p / of_nat n)" by (rule fl_nonneg) simp
  then have "0 \<le> v" unfolding v_def by (intro fl_nonneg mult_nonneg_nonneg) simp_all
  then have f0: "0 \<le> f" using assms(2) by (simp add: f_def)
  have fq: "f < int q" by (simp add: f_def)
  have "quad_index p n q = Num (min (of_int \<lfloor>v\<rfloor>) (of_nat q - 1))"
    using assms(1) by (simp add: quad_index_def v_def)
  also have "min (of_int \<lfloor>v\<rfloor>) (of_nat q - 1) = (of_int f :: rat)"
    by (simp add: f_def min_def)
  also have "(of_int f :: rat) = of_nat (nat f)" using f0 by simp
  finally have "quad_index p n q = Num (of_nat (nat f))" .
  moreover have "nat f < q" using f0 fq by simp
  ultimately show ?thesis by blast
qed

lemma as_index_of_nat: "j < n \<Longrightarrow> as_index (Num (of_nat j)) n = Some j"
  by simp

lemma bump_in_grid:
  assumes "well_shaped a" and "r < qRows" and "c < qCols"
  shows "bump a (Num (of_nat r)) (Num (of_nat c)) k = Inr (a[r := (a ! r)[c := a ! r ! c + k]])"
  using assms by (simp add: bump_def well_shaped_def)

lemma well_shaped_update:
  assumes "well_shaped a"
  shows "well_shaped (a[r := (a ! r)[c := v]])"
  using assms by (cases "r < length a") (auto simp: well_shaped_def nth_list_update)

lemma grid_sum_update:
  assumes "r < length a" and "c < length (a ! r)"
  shows "grid_sum (a[r := (a ! r)[c := a ! r ! c + k]]) = grid_sum a + k"
proof -
  have le: "a ! r ! c \<le> sum_list (a ! r)"
    using assms(2) by (simp add: member_le_sum_list)
  have row: "sum_list ((a ! r)[c := a ! r ! c + k]) = sum_list (a ! r) + k"
    using assms(2) le by (simp add: sum_list_update)
  have le2: "sum_list (a ! r) \<le> sum_list (map sum_list a)"
    using assms(1) by (simp add: member_le_sum_list)
  have "grid_sum (a[r := (a ! r)[c := a ! r ! c + k]])
      = sum_list ((map sum_list a)[r := sum_list (a ! r) + k])"
    by (simp add: grid_sum_def map_update row)
  also have "\<dots> = sum_list (map sum_list a) + k"
    using assms(1) le2 by (simp add: sum_list_update)
  finally show ?thesis by (simp add: grid_sum_def)
qed

lemma nth_grid_update:
  assumes "well_shaped a" and "r < qRows" and "c < qCols" and "r' < qRows" and "c' < qCols"
  shows "a[r := (a ! r)[c := a ! r ! c + k]] ! r' ! c'
    = a ! r' ! c' + (if r' = r \<and> c' = c then k else 0)"
  using assms by (auto simp: well_shaped_def nth_list_update)

lemma cells_grow_refl: "cells_grow st st"
  by (simp add: cells_grow_def)

lemma cells_grow_trans: "cells_grow s1 s2 \<Longrightarrow> cells_grow s2 s3 \<Longrightarrow> cells_grow s1 s3"
  unfolding cells_grow_def by (meson order_trans)

lemma covered_grow: "covered w h x y st \<Longrightarrow> cells_grow st st' \<Longrightarrow> covered w h x y st'"
  unfolding covered_def cells_grow_def by (meson order_trans)

lemma pixel_step_detail:
  assumes "scan_inv n st" and "0 < w" and "0 < h"
  shows "\<exists>st'. pixel_step dat w h y x st = Inr st' \<and> scan_inv (Suc n) st'
    \<and> whiteTotal st' = whiteTotal st + isWhite dat ((y * w + x) * 4)
    \<and> cells_grow st st' \<and> covered w h x y st'"
proof -
  obtain r where r: "r < qRows" "quad_index y h qRows = Num (of_nat r)"
    using quad_index_in_range [OF assms(3), of qRows y] by (auto simp: qRows_def)
  obtain c where c: "c < qCols" "quad_index x w qCols = Num (of_nat c)"
    using quad_index_in_range [OF assms(2), of qCols x] by (auto simp: qCols_def)
  define wh where "wh = isWhite dat ((y * w + x) * 4)"
  define qs where "qs = (quadrants st)[r := (quadrants st ! r)[c := quadrants st ! r ! c + wh]]"
  define qts where
    "qts = (quadrantTotals st)[r := (quadrantTotals st ! r)[c := quadrantTotals st ! r ! c + 1]]"
  define st' where "st' = \<lparr>whiteTotal = whiteTotal st + wh, quadrants = qs, quadrantTotals = qts\<rparr>"
  have ws: "well_shaped (quadrants st)" "well_shaped (quadrantTotals st)"
    using assms(1) by (simp_all add: scan_inv_def)
  have wh1: "wh \<le> 1" by (simp add: wh_def isWhite_def)
  have step: "pixel_step dat w h y x st = Inr st'"
    unfolding pixel_step_def Let_def r(2) c(2)
      bump_in_grid [OF ws(1) r(1) c(1)] bump_in_grid [OF ws(2) r(1) c(1)]
    by (simp add: st'_def qs_def qts_def wh_def)
  have rl: "r < length (quadrants st)" "r < length (quadrantTotals st)"
    and cl: "c < length (quadrants st ! r)" "c < length (quadrantTotals st ! r)"
    using ws r(1) c(1) by (simp_all add: well_shaped_def)
  have qts_nth: "qts ! r' ! c' = quadrantTotals st ! r' ! c' + (if r' = r \<and> c' = c then 1 else 0)"
    if "r' < qRows" "c' < qCols" for r' c'
    unfolding qts_def by (rule nth_grid_update [OF ws(2) r(1) c(1) that])
  have "well_shaped qs" "well_shaped qts"
    unfolding qs_def qts_def using ws by (simp_all add: well_shaped_update)
  moreover have "grid_sum qts = Suc n"
    unfolding qts_def using grid_sum_update [OF rl(2) cl(2), of 1] assms(1)
    by (simp add: scan_inv_def)
  moreover have "grid_sum qs = whiteTotal st + wh"
    unfolding qs_def using grid_sum_update [OF rl(1) cl(1), of wh] assms(1)
    by (simp add: scan_inv_def)
  moreover have "qs ! r' ! c' \<le> qts ! r' ! c'" if "r' < qRows" "c' < qCols" for r' c'
  proof -
    have "quadrants st ! r' ! c' \<le> quadrantTotals st ! r' ! c'"
      using assms(1) that by (simp add: scan_inv_def)
    then show ?thesis
      unfolding qs_def qts_nth [OF that] nth_grid_update [OF ws(1) r(1) c(1) that]
      using wh1 by auto
  qed
  ultimately have inv: "scan_inv (Suc n) st'" by (simp add: scan_inv_def st'_def)
  have grow: "cells_grow st st'"
    unfolding cells_grow_def by (simp add: st'_def qts_nth)
  have cov: "covered w h x y st'"
    unfolding covered_def
  proof (intro allI impI)
    fix r' c'
    assume b: "r' < qRows" "c' < qCols" and "cell_of w h x y r' c'"
    then have "(of_nat r' :: rat) = of_nat r" "(of_nat c' :: rat) = of_nat c"
      using r(2) c(2) by (simp_all add: cell_of_def)
    then have "r' = r" "c' = c" by (simp_all only: of_nat_eq_iff)
    with qts_nth [OF b] show "1 \<le> quadrantTotals st' ! r' ! c'" by (simp add: st'_def)
  qed
  have "whiteTotal st' = whiteTotal st + isWhite dat ((y * w + x) * 4)"
    by (simp add: st'_def wh_def)
  with step inv grow cov show ?thesis by blast
qed

lemma for_each_inv:
  assumes "I 0 st"
    and "\<And>k s. k < length js \<Longrightarrow> I k s \<Longrightarrow> \<exists>s'. body (js ! k) s = Inr s' \<and> I (Suc k) s'"
  shows "\<exists>s'. for_each body js st = Inr s' \<and> I (length js) s'"
  using assms
proof (induction js arbitrary: st I)
  case Nil
  then show ?case by simp
next
  case (Cons j js)
  from Cons.prems(2) [of 0 st] Cons.prems(1)
  obtain s1 where s1: "body j st = Inr s1" "I (Suc 0) s1" by auto
  have "\<exists>s'. for_each body js s1 = Inr s' \<and> I (Suc (length js)) s'"
  proof (rule Cons.IH [where I = "\<lambda>k. I (Suc k)"])
    show "I (Suc 0) s1" by (rule s1(2))
  next
    fix k s
    assume "k < length js" "I (Suc k) s"
    with Cons.prems(2) [of "Suc k" s]
    show "\<exists>s'. body (js ! k) s = Inr s' \<and> I (Suc (Suc k)) s'" by simp
  qed
  with s1(1) show ?case by simp
qed

lemma scan_start_inv: "scan_inv 0 scan_start"
  by (auto simp: scan_inv_def scan_start_def well_shaped_def grid_sum_def qRows_def qCols_def
      less_Suc_eq numeral_2_eq_2 numeral_Bit0 [of "Num.Bit0 Num.One"])

lemma scan_row_detail:
  assumes "scan_inv n st" and "0 < h"
  shows "\<exists>st'. for_each (\<lambda>x. pixel_step dat w h y x) [0..<w] st = Inr st'
    \<and> scan_inv (n + w) st'
    \<and> whiteTotal st' = whiteTotal st + sum_list (map (\<lambda>x. isWhite dat ((y * w + x) * 4)) [0..<w])
    \<and> cells_grow st st' \<and> (\<forall>x<w. covered w h x y st')"
proof -
  define I where "I k s \<longleftrightarrow> scan_inv (n + k) s
    \<and> whiteTotal s = whiteTotal st + sum_list (map (\<lambda>x. isWhite dat ((y * w + x) * 4)) [0..<k])
    \<and> cells_grow st s \<and> (\<forall>x<k. covered w h x y s)" for k s
  have "\<exists>st'. for_each (\<lambda>x. pixel_step dat w h y x) [0..<w] st = Inr st' \<and> I (length [0..<w]) st'"
  proof (rule for_each_inv)
    show "I 0 st" using assms(1) by (simp add: I_def cells_grow_refl)
  next
    fix k s
    assume k: "k < length [0..<w]" and s: "I k s"
    then have kw: "k < w" and w: "0 < w" by simp_all
    from s have inv: "scan_inv (n + k) s" by (simp add: I_def)
    from pixel_step_detail [OF inv w assms(2), of dat y k]
    obtain s' where s': "pixel_step dat w h y k s = Inr s'" "scan_inv (Suc (n + k)) s'"
      "whiteTotal s' = whiteTotal s + isWhite dat ((y * w + k) * 4)"
      "cells_grow s s'" "covered w h k y s'" by blast
    have "covered w h x y s'" if "x < Suc k" for x
    proof (cases "x = k")
      case True
      with s'(5) show ?thesis by simp
    next
      case False
      with that have "x < k" by simp
      with s have "covered w h x y s" by (simp add: I_def)
      then show ?thesis using s'(4) by (rule covered_grow)
    qed
    moreover have "cells_grow st s'"
      using s s'(4) by (auto simp: I_def intro: cells_grow_trans)
    ultimately have "I (Suc k) s'" using s s'(2,3) by (simp add: I_def)
    with s'(1) kw show "\<exists>s'. pixel_step dat w h y ([0..<w] ! k) s = Inr s' \<and> I (Suc k) s'"
      by simp
  qed
  then show ?thesis by (simp add: I_def)
qed

lemma scan_pixels_detail:
  "\<exists>st. scan_pixels dat w h = Inr st \<and> scan_inv (h * w) st
    \<and> whiteTotal st
        = sum_list (map (\<lambda>y. sum_list (map (\<lambda>x. isWhite dat ((y * w + x) * 4)) [0..<w])) [0..<h])
    \<and> (\<forall>y<h. \<forall>x<w. covered w h x y st)"
proof -
  define I where "I k s \<longleftrightarrow> scan_inv (k * w) s
    \<and> whiteTotal s
        = sum_list (map (\<lambda>y. sum_list (map (\<lambda>x. isWhite dat ((y * w + x) * 4)) [0..<w])) [0..<k])
    \<and> (\<forall>y<k. \<forall>x<w. covered w h x y s)" for k s
  have "\<exists>st. for_each (\<lambda>y. for_each (\<lambda>x. pixel_step dat w h y x) [0..<w]) [0..<h] scan_start = Inr st
      \<and> I (length [0..<h]) st"
  proof (rule for_each_inv)
    show "I 0 scan_start" by (simp add: I_def scan_start_inv) (simp add: scan_start_def)
  next
    fix k s
    assume k: "k < length [0..<h]" and s: "I k s"
    then have kh: "k < h" and h: "0 < h" by simp_all
    from s have inv: "scan_inv (k * w) s" by (simp add: I_def)
    from scan_row_detail [OF inv h, of dat w k]
    obtain s' where s': "for_each (\<lambda>x. pixel_step dat w h k x) [0..<w] s = Inr s'"
      "scan_inv (k * w + w) s'"
      "whiteTotal s' = whiteTotal s + sum_list (map (\<lambda>x. isWhite dat ((k * w + x) * 4)) [0..<w])"
      "cells_grow s s'" "\<forall>x<w. covered w h x k s'" by blast
    have "covered w h x y s'" if "y < Suc k" "x < w" for x y
    proof (cases "y = k")
      case True
      with s'(5) that(2) show ?thesis by simp
    next
      case False
      with that have "y < k" by simp
      with s that(2) have "covered w h x y s" by (simp add: I_def)
      then show ?thesis using s'(4) by (rule covered_grow)
    qed
    then have "I (Suc k) s'" using s s'(2,3) by (simp add: I_def add.commute)
    with s'(1) kh
    show "\<exists>s'. for_each (\<lambda>x. pixel_step dat w h ([0..<h] ! k) x) [0..<w] s = Inr s' \<and> I (Suc k) s'"
      by simp
  qed
  then show ?thesis by (simp add: I_def scan_pixels_def)
qed

lemma scan_pixels_total:
  "\<exists>st. scan_pixels dat w h = Inr st \<and> scan_inv (h * w) st"
  using scan_pixels_detail [of dat w h] by blast

text \<open>
  C4: every pixel of a screenshot of positive width and height has exactly one cell, the
  one in the row and the column that the assignment rule computes, and both lie in the 2 by
  4 grid; the scan finishes, and the pixel totals of the cells add up to
  \<^verbatim>\<open>totalPixels\<close>, the width times the height.
\<close>

theorem quadrant_totals_partition_pixels:
  assumes "0 < w" and "0 < h"
  shows "(\<exists>r<qRows. quad_index y h qRows = Num (of_nat r))
    \<and> (\<exists>c<qCols. quad_index x w qCols = Num (of_nat c))
    \<and> (\<exists>st rep. scan_pixels dat w h = Inr st
          \<and> analyze_pixels \<lparr>canvas_width = w, canvas_height = h, canvas_data = dat\<rparr> = Inr rep
          \<and> totalPixels rep = w * h
          \<and> grid_sum (quadrantTotals st) = totalPixels rep)"
proof -
  from scan_pixels_total [of dat w h]
  obtain st where st: "scan_pixels dat w h = Inr st" "scan_inv (h * w) st" by blast
  have "\<exists>st rep. scan_pixels dat w h = Inr st
          \<and> analyze_pixels \<lparr>canvas_width = w, canvas_height = h, canvas_data = dat\<rparr> = Inr rep
          \<and> totalPixels rep = w * h
          \<and> grid_sum (quadrantTotals st) = totalPixels rep"
    using st assms by (simp add: analyze_pixels_def Let_def scan_inv_def mult.commute)
  moreover have "\<exists>r<qRows. quad_index y h qRows = Num (of_nat r)"
    using quad_index_in_range [OF assms(2), of qRows y] by (simp add: qRows_def)
  moreover have "\<exists>c<qCols. quad_index x w qCols = Num (of_nat c)"
    using quad_index_in_range [OF assms(1), of qCols x] by (simp add: qCols_def)
  ultimately show ?thesis by blast
qed

theorem quadrant_totals_partition_pixels_witness:
  "(0::nat) < 3 \<and> (0::nat) < 2
   \<and> (\<exists>st rep. scan_pixels [] 3 2 = Inr st
          \<and> analyze_pixels \<lparr>canvas_width = 3, canvas_height = 2, canvas_data = []\<rparr> = Inr rep
          \<and> totalPixels rep = 3 * 2
          \<and> grid_sum (quadrantTotals st) = totalPixels rep)"
proof -
  have w: "(0::nat) < 3" and h: "(0::nat) < 2" by simp_all
  from quadrant_totals_partition_pixels [OF w h, of 0 0 "[]"] w h show ?thesis by blast
qed

section \<open>The count of the white pixels\<close>

lemma isWhite_pixel:
  assumes "length dat = w * h * 4" and "x < w" and "y < h"
  shows "isWhite dat ((y * w + x) * 4) = (if 128 < mean_rgb dat w x y then 1 else 0)"
proof -
  define k where "k = y * w + x"
  have "y * w + x < y * w + w" using assms(2) by simp
  also have "\<dots> = Suc y * w" by simp
  also have "\<dots> \<le> h * w" using assms(3) by (intro mult_le_mono1) simp
  also have "\<dots> = w * h" by (rule mult.commute)
  finally have "k < w * h" by (simp add: k_def)
  then have "k * 4 + 2 < length dat" unfolding assms(1) by linarith
  from isWhite_mean [OF this, of 0]
  have "isWhite dat (k * 4) = 1 \<longleftrightarrow>
      128 < (of_nat (unat (dat ! (k * 4)) + unat (dat ! (k * 4 + 1)) + unat (dat ! (k * 4 + 2))) :: rat) / 3"
    by blast
  then have "isWhite dat (k * 4) = 1 \<longleftrightarrow> 128 < mean_rgb dat w x y"
    unfolding mean_rgb_def k_def .
  moreover have "isWhite dat (k * 4) = 0 \<or> isWhite dat (k * 4) = 1"
    by (simp add: isWhite_def)
  ultimately show ?thesis unfolding k_def by auto
qed

lemma white_count_bright:
  assumes "length dat = w * h * 4"
  shows "sum_list (map (\<lambda>y. sum_list (map (\<lambda>x. isWhite dat ((y * w + x) * 4)) [0..<w])) [0..<h])
    = bright_pixels dat w h"
proof -
  have row: "map (\<lambda>x. isWhite dat ((y * w + x) * 4)) [0..<w]
      = map (\<lambda>x. if 128 < mean_rgb dat w x y then 1 else 0) [0..<w]" if "y < h" for y
  proof (rule map_cong [OF refl])
    fix x
    assume "x \<in> set [0..<w]"
    then have "x < w" by simp
    from isWhite_pixel [OF assms this that]
    show "isWhite dat ((y * w + x) * 4) = (if 128 < mean_rgb dat w x y then 1 else 0)" .
  qed
  have "map (\<lambda>y. sum_list (map (\<lambda>x. isWhite dat ((y * w + x) * 4)) [0..<w])) [0..<h]
      = map (\<lambda>y. sum_list (map (\<lambda>x. if 128 < mean_rgb dat w x y then 1 else 0) [0..<w])) [0..<h]"
  proof (rule map_cong [OF refl])
    fix y
    assume "y \<in> set [0..<h]"
    then have "y < h" by simp
    from row [OF this]
    show "sum_list (map (\<lambda>x. isWhite dat ((y * w + x) * 4)) [0..<w])
        = sum_list (map (\<lambda>x. if 128 < mean_rgb dat w x y then 1 else 0) [0..<w])"
      by (rule arg_cong)
  qed
  then show ?thesis unfolding bright_pixels_def by (rule arg_cong)
qed

lemma pixel_step_whiteTotal:
  assumes "pixel_step dat w h y x st = Inr st'"
  shows "whiteTotal st' = whiteTotal st + isWhite dat ((y * w + x) * 4)"
  using assms by (auto simp: pixel_step_def Let_def split: sum.splits)

lemma mean_rgb_alpha: "mean_rgb (dat[(y' * w + x') * 4 + 3 := a]) w x y = mean_rgb dat w x y"
proof -
  have upd: "dat[m * 4 + 3 := a] ! (k * 4) = dat ! (k * 4)"
    "dat[m * 4 + 3 := a] ! (k * 4 + 1) = dat ! (k * 4 + 1)"
    "dat[m * 4 + 3 := a] ! (k * 4 + 2) = dat ! (k * 4 + 2)" for m k
    by (rule nth_list_update_neq, presburger)+
  show ?thesis unfolding mean_rgb_def upd ..
qed

text \<open>
  C5: in a buffer of \<open>w\<close> by \<open>h\<close> pixels with four bytes per pixel, the loop body counts
  the pixel in column \<open>x\<close> of row \<open>y\<close> as white exactly when the mean of its red, green and
  blue byte is greater than 128, and leaves the counter as it is when the mean is 128;
  the reported \<^verbatim>\<open>whitePixels\<close> is the number of pixels with a mean above 128; the alpha
  bytes have no part in the mean.
\<close>

theorem white_pixels_have_mean_above_128:
  assumes "length dat = w * h * 4" and "0 < w" and "0 < h"
  shows "(\<exists>rep. analyze_pixels \<lparr>canvas_width = w, canvas_height = h, canvas_data = dat\<rparr> = Inr rep
            \<and> whitePixels rep = bright_pixels dat w h)
    \<and> (\<forall>x<w. \<forall>y<h. \<forall>st st'. pixel_step dat w h y x st = Inr st' \<longrightarrow>
          whiteTotal st' = whiteTotal st + (if 128 < mean_rgb dat w x y then 1 else 0))
    \<and> (\<forall>x<w. \<forall>y<h. \<forall>st st'. mean_rgb dat w x y = 128 \<longrightarrow> pixel_step dat w h y x st = Inr st' \<longrightarrow>
          whiteTotal st' = whiteTotal st)
    \<and> (\<forall>x y x' y' a. mean_rgb (dat[(y' * w + x') * 4 + 3 := a]) w x y = mean_rgb dat w x y)"
proof -
  from scan_pixels_detail [of dat w h]
  obtain st where st: "scan_pixels dat w h = Inr st"
    "whiteTotal st
      = sum_list (map (\<lambda>y. sum_list (map (\<lambda>x. isWhite dat ((y * w + x) * 4)) [0..<w])) [0..<h])"
    by blast
  have 1: "\<exists>rep. analyze_pixels \<lparr>canvas_width = w, canvas_height = h, canvas_data = dat\<rparr> = Inr rep
      \<and> whitePixels rep = bright_pixels dat w h"
    using st assms(2,3) white_count_bright [OF assms(1)]
    by (simp add: analyze_pixels_def Let_def)
  have 2: "whiteTotal st' = whiteTotal st + (if 128 < mean_rgb dat w x y then 1 else 0)"
    if "x < w" "y < h" "pixel_step dat w h y x st = Inr st'" for x y st st'
    using pixel_step_whiteTotal [OF that(3)] isWhite_pixel [OF assms(1) that(1,2)] by simp
  have 3: "whiteTotal st' = whiteTotal st"
    if "x < w" "y < h" "mean_rgb dat w x y = 128" "pixel_step dat w h y x st = Inr st'"
    for x y st st'
    using 2 [OF that(1,2,4)] that(3) by simp
  from 1 2 3 mean_rgb_alpha show ?thesis by blast
qed

theorem white_pixels_have_mean_above_128_witness:
  "length [128, 128, 128, 255, 129, 128, 128, 0 :: 8 word] = 2 * 1 * 4
   \<and> (0::nat) < 2 \<and> (0::nat) < 1
   \<and> mean_rgb [128, 128, 128, 255, 129, 128, 128, 0] 2 0 0 = 128
   \<and> (\<exists>rep. analyze_pixels \<lparr>canvas_width = 2, canvas_height = 1,
              canvas_data = [128, 128, 128, 255, 129, 128, 128, 0]\<rparr> = Inr rep
          \<and> whitePixels rep = 1)"
proof -
  have l: "length [128, 128, 128, 255, 129, 128, 128, 0 :: 8 word] = 2 * 1 * 4" by simp
  have w: "(0::nat) < 2" and h: "(0::nat) < 1" by simp_all
  have m: "mean_rgb [128, 128, 128, 255, 129, 128, 128, 0] 2 0 0 = 128"
    by (simp add: mean_rgb_def)
  have b: "bright_pixels [128, 128, 128, 255, 129, 128, 128, 0] 2 1 = 1" by code_simp
  from white_pixels_have_mean_above_128 [OF l w h] l w h m show ?thesis
    unfolding b by blast
qed

section \<open>Rounded percentages\<close>

lemma to_fixed_error:
  assumes "0 \<le> x"
  shows "\<exists>p. to_fixed k (Num x) = Num p \<and> \<bar>p - x\<bar> \<le> 1 / (2 * 10 ^ k) + (x + 1 / 2) / 2 ^ 53"
proof (cases "10 ^ 21 \<le> \<bar>x\<bar>")
  case True
  then have "to_fixed k (Num x) = Num x" by simp
  moreover have "0 \<le> 1 / (2 * 10 ^ k) + (x + 1 / 2) / 2 ^ 53"
    using assms by (intro add_nonneg_nonneg divide_nonneg_nonneg) simp_all
  ultimately show ?thesis by simp
next
  case False
  define m where "m = \<lfloor>x * 10 ^ k + 1 / 2\<rfloor>"
  define dd :: rat where "dd = of_int m / 10 ^ k"
  have k: "(0::rat) < 10 ^ k" by simp
  have "of_int m \<le> x * 10 ^ k + 1 / 2" "x * 10 ^ k + 1 / 2 < of_int m + 1"
    unfolding m_def by linarith+
  then have "\<bar>of_int m - x * 10 ^ k\<bar> \<le> 1 / 2" by linarith
  then have "\<bar>of_int m - x * 10 ^ k\<bar> / 10 ^ k \<le> (1 / 2) / 10 ^ k"
    by (rule divide_right_mono) simp
  moreover have "\<bar>of_int m - x * 10 ^ k\<bar> / 10 ^ k = \<bar>dd - x\<bar>"
  proof -
    have "dd - x = (of_int m - x * 10 ^ k) / 10 ^ k" by (simp add: dd_def field_simps)
    then show ?thesis by (simp add: abs_divide)
  qed
  ultimately have dx: "\<bar>dd - x\<bar> \<le> 1 / (2 * 10 ^ k)" by simp
  have "(1::rat) / (2 * 10 ^ k) \<le> 1 / 2"
    by (simp add: field_simps)
  with dx have d1: "\<bar>dd\<bar> \<le> x + 1 / 2" using assms by linarith
  have "\<lfloor>1 / 2 :: rat\<rfloor> = 0" by (rule floor_unique) simp_all
  then have m0: "m = 0" if "x = 0" using that by (simp add: m_def)
  have "sgn x * of_int m / 10 ^ k = dd"
  proof (cases "x = 0")
    case True
    then show ?thesis by (simp add: dd_def m0)
  next
    case False
    with assms have "sgn x = 1" by simp
    then show ?thesis by (simp add: dd_def)
  qed
  then have "to_fixed k (Num x) = Num (fl dd)"
    using False assms by (simp add: m_def)
  moreover have "\<bar>fl dd - x\<bar> \<le> 1 / (2 * 10 ^ k) + (x + 1 / 2) / 2 ^ 53"
  proof -
    have "\<bar>fl dd - dd\<bar> \<le> \<bar>dd\<bar> / 2 ^ 53" by (rule fl_error)
    also have "\<dots> \<le> (x + 1 / 2) / 2 ^ 53" using d1 by (simp add: divide_right_mono)
    finally show ?thesis using dx by linarith
  qed
  ultimately show ?thesis by blast
qed



section \<open>Pixels for every cell\<close>






section \<open>The weighted average of the cells\<close>











section \<open>The average chain length\<close>

lemma chain_sum_exact:
  assumes "acc + sum_list cl \<le> 2 ^ 53"
  shows "foldl (\<lambda>a b. js_add a (Num (of_nat b))) (Num (of_nat acc)) cl
    = Num (of_nat (acc + sum_list cl))"
  using assms
proof (induction cl arbitrary: acc)
  case Nil
  then show ?case by simp
next
  case (Cons c cl)
  from Cons.prems have 1: "acc + c \<le> 2 ^ 53" and 2: "(acc + c) + sum_list cl \<le> 2 ^ 53"
    by simp_all
  have "js_add (Num (of_nat acc)) (Num (of_nat c)) = Num (of_nat (acc + c))"
    using fl_of_nat [OF 1] by simp
  with Cons.IH [OF 2] show ?case by (simp add: add.assoc)
qed

text \<open>
  C9: the reported average, times the number of chains, is the sum of the chain lengths
  up to the rounding: half a unit of the first decimal for each chain, and the rounding of
  the doubles. For no chain at all the average and the maximum are both 0, and nothing is
  divided. The chain lengths are counted in one SVG string, so their sum stays below
  \<open>2^53\<close>, the longest string there is.
\<close>

theorem avg_chain_times_count_is_sum:
  assumes "sum_list cl \<le> 2 ^ 53"
  shows "(cl = [] \<longrightarrow> avg_chain cl = Num 0 \<and> max_chain cl = 0)
    \<and> (\<exists>a. avg_chain cl = Num a
          \<and> \<bar>a * of_nat (length cl) - of_nat (sum_list cl)\<bar>
              \<le> of_nat (length cl) / 20
                  + (of_nat (length cl) + 3 * of_nat (sum_list cl)) / 2 ^ 53)"
proof (cases "cl = []")
  case True
  then show ?thesis by (simp add: avg_chain_def max_chain_def)
next
  case False
  define n :: rat where "n = of_nat (length cl)"
  define S :: rat where "S = of_nat (sum_list cl)"
  define x where "x = S / n"
  define q where "q = fl x"
  have n0: "0 < n" using False by (simp add: n_def)
  have S0: "0 \<le> S" by (simp add: S_def)
  have x0: "0 \<le> x" using n0 S0 by (simp add: x_def)
  have xn: "x * n = S" using n0 by (simp add: x_def)
  have q0: "0 \<le> q" unfolding q_def using x0 by (rule fl_nonneg)
  have "\<bar>q - x\<bar> \<le> \<bar>x\<bar> / 2 ^ 53" unfolding q_def by (rule fl_error)
  then have qx: "\<bar>q - x\<bar> \<le> x / 9007199254740992" using x0 by simp
  from to_fixed_error [OF q0, of 1]
  obtain a where a: "to_fixed 1 (Num q) = Num a"
    "\<bar>a - q\<bar> \<le> 1 / (2 * 10 ^ 1) + (q + 1 / 2) / 2 ^ 53" by blast
  from a(2) have aq: "\<bar>a - q\<bar> \<le> 1 / 20 + q / 9007199254740992 + 1 / 18014398509481984"
    by (simp add: add_divide_distrib)
  have "\<bar>a - x\<bar> \<le> 1 / 20 + 3 * x / 9007199254740992 + 1 / 9007199254740992"
    using aq qx x0 by linarith
  then have ax: "\<bar>a - x\<bar> \<le> 1 / 20 + (3 * x + 1) / 9007199254740992"
    by (simp add: add_divide_distrib)
  have "\<bar>a * n - S\<bar> = n * \<bar>a - x\<bar>"
  proof -
    have "a * n - S = n * (a - x)" using xn by (simp add: algebra_simps)
    then show ?thesis using n0 by (simp add: abs_mult)
  qed
  also have "\<dots> \<le> n * (1 / 20 + (3 * x + 1) / 9007199254740992)"
    using ax n0 by (intro mult_left_mono) simp_all
  also have "\<dots> = n / 20 + (n + 3 * S) / 2 ^ 53"
    using xn by (simp add: algebra_simps add_divide_distrib)
  finally have bound: "\<bar>a * n - S\<bar> \<le> n / 20 + (n + 3 * S) / 2 ^ 53" .
  have "foldl (\<lambda>a b. js_add a (Num (of_nat b))) (Num (of_nat 0)) cl = Num (of_nat (0 + sum_list cl))"
    by (rule chain_sum_exact) (use assms in simp)
  then have "avg_chain cl = to_fixed 1 (Num q)"
    using False by (simp add: avg_chain_def q_def x_def S_def n_def)
  with a(1) bound False show ?thesis by (simp add: n_def S_def)
qed

theorem avg_chain_times_count_is_sum_witness:
  "sum_list [3, 0 :: nat] \<le> 2 ^ 53
   \<and> (\<exists>a. avg_chain [3, 0] = Num a
          \<and> \<bar>a * of_nat (length [3, 0 :: nat]) - of_nat (sum_list [3, 0 :: nat])\<bar>
              \<le> of_nat (length [3, 0 :: nat]) / 20
                  + (of_nat (length [3, 0 :: nat]) + 3 * of_nat (sum_list [3, 0 :: nat])) / 2 ^ 53)"
proof -
  have h: "sum_list [3, 0 :: nat] \<le> 2 ^ 53" by simp
  from avg_chain_times_count_is_sum [OF h] h show ?thesis by blast
qed

end
